theory Spec2Isabelle
  imports Main "HOL-Library.Word"
begin

section \<open>The memory store of tools/store/store.go\<close>

text \<open>
  The store maps captcha ids to their values and forgets them after an expiration
  time. It holds a Go map, a \<^verbatim>\<open>container/list\<close> of (timestamp, id) pairs in
  insertion order and a counter. Every method body runs under the store's lock, so a
  sequential execution is a sequence of whole method bodies; the model passes the store
  through each of them and returns the updated store.

  An instant of \<^verbatim>\<open>time.Time\<close> and a \<^verbatim>\<open>time.Duration\<close> are integers
  (nanoseconds): \<^verbatim>\<open>t.Add(d)\<close> is \<open>t + d\<close> and \<^verbatim>\<open>t.Before(u)\<close> is \<open>t < u\<close>.
  The reading of the clock, \<^verbatim>\<open>time.Now()\<close>, is an argument of the operation
  that takes it. The counter is a Go \<^verbatim>\<open>int\<close>, 64 bits wide on the 64-bit targets:
  a word, whose \<open>+\<close> and \<open>-\<close> wrap and whose comparison is the signed one.
\<close>

type_synonym time = int
type_synonym duration = int

subsection \<open>Data\<close>

record idByTimeValue =
  timestamp :: time
  id' :: string

text \<open>
  A list element holds a value of the empty interface. The store only ever looks at it
  through the type assertion \<^verbatim>\<open>e.Value.(idByTimeValue)\<close>, so a value is either an
  \<^verbatim>\<open>idByTimeValue\<close> or something of another dynamic type.
\<close>

datatype any = AnyIdByTimeValue idByTimeValue | AnyOther

record memoryStore =
  digitsById :: "string \<rightharpoonup> string"
  idByTime :: "any list"
  numStored :: "64 word"
  collectNum :: "64 word"
  expiration :: duration

text \<open>The comma-ok type assertion \<^verbatim>\<open>ev, ok := e.Value.(idByTimeValue)\<close>:
  \<open>None\<close> is \<^verbatim>\<open>ok == false\<close>.\<close>

fun assert_idByTimeValue :: "any \<Rightarrow> idByTimeValue option" where
  "assert_idByTimeValue (AnyIdByTimeValue ev) = Some ev"
| "assert_idByTimeValue AnyOther = None"

subsection \<open>Operations\<close>

definition NewMemoryStore :: "64 word \<Rightarrow> duration \<Rightarrow> memoryStore" where
  "NewMemoryStore cn ex =
     \<lparr>digitsById = Map.empty, idByTime = [], numStored = 0, collectNum = cn, expiration = ex\<rparr>"

text \<open>
  \<^verbatim>\<open>Set\<close> returns nothing; the model returns the updated store and whether the
  call starts \<^verbatim>\<open>go s.collect()\<close>: the test reads \<^verbatim>\<open>numStored\<close> after the
  unlock, in a sequential execution the value the call has just written. The started
  sweep runs later, as an operation of its own.
\<close>

definition Set :: "memoryStore \<Rightarrow> time \<Rightarrow> string \<Rightarrow> string \<Rightarrow> memoryStore \<times> bool" where
  "Set s now i v =
     (let s' = s\<lparr>digitsById := (digitsById s)(i \<mapsto> v),
                idByTime := idByTime s @ [AnyIdByTimeValue \<lparr>timestamp = now, id' = i\<rparr>],
                numStored := numStored s + 1\<rparr>
      in (s', word_sless (collectNum s') (numStored s')))"

text \<open>\<^verbatim>\<open>Get\<close> returns the value, the empty string when the id is not in the map,
  and the store it leaves.\<close>

definition Get :: "memoryStore \<Rightarrow> string \<Rightarrow> bool \<Rightarrow> string \<times> memoryStore" where
  "Get s i clear =
     (case digitsById s i of
        None \<Rightarrow> ('''', s)
      | Some v \<Rightarrow> (v, if clear then s\<lparr>digitsById := (digitsById s)(i := None)\<rparr> else s))"

text \<open>
  \<^verbatim>\<open>collect\<close> starts at the front of the list and \<^verbatim>\<open>collectOne\<close> returns the
  successor of the front it has just removed, which is the new front: the element
  handed to \<^verbatim>\<open>collectOne\<close> is always the front of the list. \<open>collectOne\<close> takes
  the store whose front is that element and returns the store it leaves and whether the
  element it returns is not nil. On an empty list there is no element to hand over;
  \<open>collect_loop\<close> never calls it there.
\<close>

definition collectOne :: "memoryStore \<Rightarrow> time \<Rightarrow> memoryStore \<times> bool" where
  "collectOne s specifyTime =
     (case idByTime s of
        [] \<Rightarrow> (s, False)
      | e # next \<Rightarrow>
          (case assert_idByTimeValue e of
             None \<Rightarrow> (s, False)
           | Some ev \<Rightarrow>
               if timestamp ev + expiration s < specifyTime
               then (s\<lparr>digitsById := (digitsById s)(id' ev := None),
                        idByTime := next,
                        numStored := numStored s - 1\<rparr>, next \<noteq> [])
               else (s, False)))"

function collect_loop :: "memoryStore \<Rightarrow> time \<Rightarrow> memoryStore" where
  "collect_loop s now =
     (if idByTime s = [] then s
      else (case collectOne s now of
              (s', True) \<Rightarrow> collect_loop s' now
            | (s', False) \<Rightarrow> s'))"
  by pat_completeness auto
termination
  by (relation "measure (\<lambda>(s, now). length (idByTime s))")
     (auto simp: collectOne_def split: list.splits option.splits if_splits)

declare collect_loop.simps [simp del]

definition collect :: "memoryStore \<Rightarrow> time \<Rightarrow> memoryStore" where
  "collect s now = collect_loop s now"

subsection \<open>Sequential executions\<close>

datatype op = OpSet time string string | OpGet string bool | OpCollect time

fun exec :: "memoryStore \<Rightarrow> op \<Rightarrow> memoryStore" where
  "exec s (OpSet now i v) = fst (Set s now i v)"
| "exec s (OpGet i clear) = snd (Get s i clear)"
| "exec s (OpCollect now) = collect s now"

definition run :: "op list \<Rightarrow> memoryStore \<Rightarrow> memoryStore" where
  "run ops s = foldl exec s ops"

subsection \<open>Notions used to state the properties\<close>

text \<open>The test of \<^verbatim>\<open>collectOne\<close> on one list element: the element is an
  \<^verbatim>\<open>idByTimeValue\<close> and its timestamp plus the expiration is before the
  reference time.\<close>

definition expired :: "duration \<Rightarrow> time \<Rightarrow> any \<Rightarrow> bool" where
  "expired ex now e =
     (case assert_idByTimeValue e of
        None \<Rightarrow> False
      | Some ev \<Rightarrow> timestamp ev + ex < now)"

text \<open>The ids held by the nodes of a stretch of the list.\<close>

fun ids_of :: "any list \<Rightarrow> string set" where
  "ids_of [] = {}"
| "ids_of (e # es) =
     (case assert_idByTimeValue e of
        None \<Rightarrow> ids_of es
      | Some ev \<Rightarrow> insert (id' ev) (ids_of es))"

text \<open>An operation that stores under the id \<open>i\<close>, and one that reads it away.\<close>

fun sets_id :: "string \<Rightarrow> op \<Rightarrow> bool" where
  "sets_id i (OpSet now j v) = (j = i)"
| "sets_id i (OpGet j clear) = False"
| "sets_id i (OpCollect now) = False"

fun clears_id :: "string \<Rightarrow> op \<Rightarrow> bool" where
  "clears_id i (OpSet now j v) = False"
| "clears_id i (OpGet j clear) = (j = i \<and> clear)"
| "clears_id i (OpCollect now) = False"

text \<open>
  \<^verbatim>\<open>Set\<close> reads the clock while it holds the lock, so the timestamps of successive
  calls do not decrease: \<open>clocked t ops\<close> says so of the calls in \<open>ops\<close>, none of
  them before \<open>t\<close>. A sweep reads the clock before it takes the lock; its reference
  time is left free.
\<close>

fun clocked :: "time \<Rightarrow> op list \<Rightarrow> bool" where
  "clocked t [] = True"
| "clocked t (OpSet now i v # ops) = (t \<le> now \<and> clocked now ops)"
| "clocked t (OpGet i clear # ops) = clocked t ops"
| "clocked t (OpCollect now # ops) = clocked t ops"

text \<open>The reference times of the sweeps in \<open>ops\<close> are at most \<open>t\<close>.\<close>

fun sweeps_upto :: "time \<Rightarrow> op list \<Rightarrow> bool" where
  "sweeps_upto t [] = True"
| "sweeps_upto t (OpSet now i v # ops) = sweeps_upto t ops"
| "sweeps_upto t (OpGet i clear # ops) = sweeps_upto t ops"
| "sweeps_upto t (OpCollect now # ops) = (now \<le> t \<and> sweeps_upto t ops)"

text \<open>The clock after the calls in \<open>ops\<close>: the timestamp of the last \<^verbatim>\<open>Set\<close>.\<close>

fun clock_after :: "time \<Rightarrow> op list \<Rightarrow> time" where
  "clock_after t [] = t"
| "clock_after t (OpSet now i v # ops) = clock_after now ops"
| "clock_after t (OpGet i clear # ops) = clock_after t ops"
| "clock_after t (OpCollect now # ops) = clock_after t ops"

text \<open>The time of the most recent \<^verbatim>\<open>Set\<close> of the id \<open>i\<close> in \<open>ops\<close>.\<close>

fun last_set :: "string \<Rightarrow> op list \<Rightarrow> time option" where
  "last_set i [] = None"
| "last_set i (OpSet now j v # ops) =
     (case last_set i ops of Some t \<Rightarrow> Some t | None \<Rightarrow> if j = i then Some now else None)"
| "last_set i (OpGet j clear # ops) = last_set i ops"
| "last_set i (OpCollect now # ops) = last_set i ops"

text \<open>The nodes a sweep scans past: those it has taken from the front of the list.\<close>

definition swept :: "memoryStore \<Rightarrow> time \<Rightarrow> any list" where
  "swept s now = take (length (idByTime s) - length (idByTime (collect s now))) (idByTime s)"

subsection \<open>Invariants of the executions\<close>

definition stamp :: "any \<Rightarrow> time" where
  "stamp e = (case assert_idByTimeValue e of None \<Rightarrow> 0 | Some ev \<Rightarrow> timestamp ev)"

text \<open>The list is in the order of its timestamps, all its nodes are
  \<^verbatim>\<open>idByTimeValue\<close>s and none is later than the clock \<open>t\<close>.\<close>

definition queue_ok :: "time \<Rightarrow> memoryStore \<Rightarrow> bool" where
  "queue_ok t s \<longleftrightarrow>
     sorted (map stamp (idByTime s)) \<and>
     (\<forall>e \<in> set (idByTime s). assert_idByTimeValue e \<noteq> None \<and> stamp e \<le> t)"

text \<open>Every id of the map has a node in the list.\<close>

definition indexed :: "memoryStore \<Rightarrow> bool" where
  "indexed s \<longleftrightarrow> (\<forall>i. digitsById s i \<noteq> None \<longrightarrow> i \<in> ids_of (idByTime s))"

text \<open>The nodes of the id \<open>i\<close> are all stamped by \<open>t\<close> at the latest, or all at the
  earliest.\<close>

definition set_by :: "string \<Rightarrow> time \<Rightarrow> memoryStore \<Rightarrow> bool" where
  "set_by i t s \<longleftrightarrow>
     (\<forall>e \<in> set (idByTime s). \<forall>ev.
        assert_idByTimeValue e = Some ev \<and> id' ev = i \<longrightarrow> timestamp ev \<le> t)"

definition set_from :: "string \<Rightarrow> time \<Rightarrow> memoryStore \<Rightarrow> bool" where
  "set_from i t s \<longleftrightarrow>
     (\<forall>e \<in> set (idByTime s). \<forall>ev.
        assert_idByTimeValue e = Some ev \<and> id' ev = i \<longrightarrow> t \<le> timestamp ev)"

section \<open>Properties\<close>

subsection \<open>The sweep as a whole\<close>

lemma collect_loop_Nil: "idByTime s = [] \<Longrightarrow> collect_loop s now = s"
  by (subst collect_loop.simps) simp

lemma collect_loop_stop:
  "idByTime s = e # es \<Longrightarrow> \<not> expired (expiration s) now e \<Longrightarrow> collect_loop s now = s"
  by (subst collect_loop.simps) (auto simp: collectOne_def expired_def split: option.splits)

lemma collect_loop_step:
  "idByTime s = e # es \<Longrightarrow> assert_idByTimeValue e = Some ev \<Longrightarrow>
   timestamp ev + expiration s < now \<Longrightarrow>
   collect_loop s now =
     collect_loop (s\<lparr>digitsById := (digitsById s)(id' ev := None), idByTime := es,
                     numStored := numStored s - 1\<rparr>) now"
  by (subst collect_loop.simps, cases "es = []") (simp_all add: collectOne_def collect_loop_Nil)

text \<open>The loop removes the longest prefix of expired nodes, deletes their ids from the
  map and counts them off.\<close>

lemma collect_loop_eq:
  "collect_loop s now =
     s\<lparr>digitsById := (\<lambda>i. if i \<in> ids_of (takeWhile (expired (expiration s) now) (idByTime s))
                            then None else digitsById s i),
       idByTime := dropWhile (expired (expiration s) now) (idByTime s),
       numStored := numStored s
                      - of_nat (length (takeWhile (expired (expiration s) now) (idByTime s)))\<rparr>"
proof (induction "idByTime s" arbitrary: s)
  case Nil
  then show ?case by (simp add: collect_loop_Nil [OF Nil [symmetric]])
next
  case (Cons e es)
  note q = Cons(2) [symmetric]
  show ?case
  proof (cases "expired (expiration s) now e")
    case False
    then show ?thesis
      using collect_loop_stop [OF q False] q by simp
  next
    case True
    then obtain ev where ev: "assert_idByTimeValue e = Some ev" "timestamp ev + expiration s < now"
      by (auto simp: expired_def split: option.splits)
    let ?s = "s\<lparr>digitsById := (digitsById s)(id' ev := None), idByTime := es,
                  numStored := numStored s - 1\<rparr>"
    have "es = idByTime ?s" by simp
    from Cons(1) [OF this] show ?thesis
      using collect_loop_step [OF q ev] True q ev(1) by (simp add: fun_eq_iff)
  qed
qed

lemma collect_digitsById:
  "digitsById (collect s now) i =
     (if i \<in> ids_of (takeWhile (expired (expiration s) now) (idByTime s)) then None
      else digitsById s i)"
  by (simp add: collect_def collect_loop_eq [of s now])

lemma collect_idByTime:
  "idByTime (collect s now) = dropWhile (expired (expiration s) now) (idByTime s)"
  by (simp add: collect_def collect_loop_eq [of s now])

lemma collect_numStored:
  "numStored (collect s now) =
     numStored s - of_nat (length (takeWhile (expired (expiration s) now) (idByTime s)))"
  by (simp add: collect_def collect_loop_eq [of s now])

lemma collect_config:
  "collectNum (collect s now) = collectNum s" "expiration (collect s now) = expiration s"
  by (simp_all add: collect_def collect_loop_eq [of s now])

lemma takeWhile_dropWhile_Nil: "takeWhile P (dropWhile P xs) = []"
  by (induction xs) simp_all

lemma length_takeWhile_dropWhile:
  "length (takeWhile P xs) + length (dropWhile P xs) = length xs"
  by (induction xs) simp_all

lemma collect_none_expired:
  assumes "\<forall>e \<in> set (idByTime s). \<not> expired (expiration s) now e"
  shows "collect s now = s"
proof -
  from assms have "takeWhile (expired (expiration s) now) (idByTime s) = []"
    by (cases "idByTime s") simp_all
  moreover from assms have "dropWhile (expired (expiration s) now) (idByTime s) = idByTime s"
    by (cases "idByTime s") simp_all
  ultimately show ?thesis
    by (simp add: collect_def collect_loop_eq [of s now])
qed

lemma collect_twice: "collect (collect s now) now = collect s now"
proof -
  let ?t = "collect s now"
  have "takeWhile (expired (expiration ?t) now) (idByTime ?t) = []"
    by (simp add: collect_config collect_idByTime takeWhile_dropWhile_Nil)
  moreover have "dropWhile (expired (expiration ?t) now) (idByTime ?t) = idByTime ?t"
    by (simp add: collect_config collect_idByTime)
  ultimately show ?thesis
    by (simp add: collect_def [of ?t] collect_loop_eq [of ?t now])
qed

subsection \<open>Executions\<close>

lemma run_Nil: "run [] s = s"
  by (simp add: run_def)

lemma run_Cons: "run (x # ops) s = run ops (exec s x)"
  by (simp add: run_def)

lemma run_snoc: "run (ops @ [x]) s = exec (run ops s) x"
  by (simp add: run_def)

lemma run_append: "run (ops @ ops') s = run ops' (run ops s)"
  by (simp add: run_def)

lemma exec_expiration: "expiration (exec s x) = expiration s"
  by (cases x) (simp_all add: Set_def Get_def Let_def collect_config split: option.splits)

lemma run_expiration: "expiration (run ops s) = expiration s"
  by (induction ops arbitrary: s) (simp_all add: run_Nil run_Cons exec_expiration)

text \<open>Only \<^verbatim>\<open>Set\<close> puts an id into the map.\<close>

lemma exec_absent:
  "digitsById s i = None \<Longrightarrow> \<not> sets_id i x \<Longrightarrow> digitsById (exec s x) i = None"
  by (cases x) (auto simp: Set_def Get_def Let_def collect_digitsById split: option.splits)

lemma run_absent:
  "digitsById s i = None \<Longrightarrow> list_all (\<lambda>x. \<not> sets_id i x) ops \<Longrightarrow>
   digitsById (run ops s) i = None"
  by (induction ops arbitrary: s) (simp_all add: run_Nil run_Cons exec_absent)

lemma Get_absent: "digitsById s i = None \<Longrightarrow> Get s i clear = ('''', s)"
  by (simp add: Get_def)

subsection \<open>Reading\<close>

text \<open>
  C3. Right after \<open>Set s now i v\<close>, the read \<open>Get i False\<close> returns \<open>v\<close> and leaves
  the store as \<open>Set\<close> left it, so that the same read, repeated, returns \<open>v\<close> again
  and again leaves that store.
\<close>

theorem set_then_plain_read:
  "Get (fst (Set s now i v)) i False = (v, fst (Set s now i v)) \<and>
   Get (snd (Get (fst (Set s now i v)) i False)) i False = (v, fst (Set s now i v))"
  by (simp add: Set_def Get_def Let_def)

text \<open>
  C4. Right after \<open>Set s now i v\<close>, the clearing read \<open>Get i True\<close> returns \<open>v\<close>.
  From the store it leaves, after any operations none of which is a \<open>Set\<close> of \<open>i\<close>,
  a read of \<open>i\<close> with either flag returns the empty string.
\<close>

theorem set_then_clearing_read:
  assumes "list_all (\<lambda>x. \<not> sets_id i x) ops"
  shows "fst (Get (fst (Set s now i v)) i True) = v \<and>
         fst (Get (run ops (snd (Get (fst (Set s now i v)) i True))) i clear) = ''''"
proof -
  let ?s = "snd (Get (fst (Set s now i v)) i True)"
  have "digitsById ?s i = None"
    by (simp add: Set_def Get_def Let_def)
  from run_absent [OF this assms] have "digitsById (run ops ?s) i = None" .
  then have "fst (Get (run ops ?s) i clear) = ''''"
    by (simp add: Get_absent)
  moreover have "fst (Get (fst (Set s now i v)) i True) = v"
    by (simp add: Set_def Get_def Let_def)
  ultimately show ?thesis by simp
qed

theorem set_then_clearing_read_witness:
  "list_all (\<lambda>x. \<not> sets_id ''a'' x) [OpGet ''a'' False, OpSet 3 ''b'' ''7'', OpCollect 40] \<and>
   fst (Get (fst (Set (NewMemoryStore 5 10) 1 ''a'' ''42'')) ''a'' True) = ''42'' \<and>
   fst (Get (run [OpGet ''a'' False, OpSet 3 ''b'' ''7'', OpCollect 40]
               (snd (Get (fst (Set (NewMemoryStore 5 10) 1 ''a'' ''42'')) ''a'' True)))
          ''a'' False) = ''''"
proof -
  have h: "list_all (\<lambda>x. \<not> sets_id ''a'' x) [OpGet ''a'' False, OpSet 3 ''b'' ''7'', OpCollect 40]"
    by simp
  from set_then_clearing_read [OF h, of "NewMemoryStore 5 10" 1 "''42''" False] h
  show ?thesis by blast
qed

text \<open>
  C5. On a store made by \<open>NewMemoryStore\<close>, after any operations none of which is a
  \<open>Set\<close> of \<open>i\<close>, both \<open>Get i False\<close> and \<open>Get i True\<close> return the empty string.
\<close>

theorem read_never_set:
  assumes "list_all (\<lambda>x. \<not> sets_id i x) ops"
  shows "fst (Get (run ops (NewMemoryStore cn ex)) i False) = '''' \<and>
         fst (Get (run ops (NewMemoryStore cn ex)) i True) = ''''"
proof -
  have "digitsById (NewMemoryStore cn ex) i = None"
    by (simp add: NewMemoryStore_def)
  from run_absent [OF this assms] show ?thesis
    by (simp add: Get_absent)
qed

theorem read_never_set_witness:
  "list_all (\<lambda>x. \<not> sets_id ''a'' x) [OpSet 2 ''b'' ''9'', OpGet ''b'' True, OpCollect 30] \<and>
   fst (Get (run [OpSet 2 ''b'' ''9'', OpGet ''b'' True, OpCollect 30] (NewMemoryStore 0 10))
          ''a'' False) = '''' \<and>
   fst (Get (run [OpSet 2 ''b'' ''9'', OpGet ''b'' True, OpCollect 30] (NewMemoryStore 0 10))
          ''a'' True) = ''''"
proof -
  have h: "list_all (\<lambda>x. \<not> sets_id ''a'' x) [OpSet 2 ''b'' ''9'', OpGet ''b'' True, OpCollect 30]"
    by simp
  from read_never_set [OF h, of 0 10] h show ?thesis by blast
qed

text \<open>
  C10. For an id that is not in the map, \<open>Get i True\<close> returns the empty string and
  the store unchanged: map, list and counter are as before.
\<close>

theorem clearing_read_miss: "digitsById s i = None \<Longrightarrow> Get s i True = ('''', s)"
  by (simp add: Get_def)

theorem clearing_read_miss_witness:
  "digitsById (NewMemoryStore 3 10) ''a'' = None \<and>
   Get (NewMemoryStore 3 10) ''a'' True = ('''', NewMemoryStore 3 10)"
proof -
  have h: "digitsById (NewMemoryStore 3 10) ''a'' = None"
    by (simp add: NewMemoryStore_def)
  from clearing_read_miss [OF h] h show ?thesis by blast
qed

text \<open>
  C7. For an id in the map, \<open>Get i True\<close> returns its value and leaves the store with
  that id deleted from the map and nothing else changed. No \<open>Get\<close>, with either flag,
  changes the list or the counter. A sweep takes from the counter exactly the number of
  nodes it removes from the list.
\<close>

theorem clearing_read_frame:
  "(digitsById s i = Some v \<longrightarrow>
      fst (Get s i True) = v \<and>
      snd (Get s i True) = s\<lparr>digitsById := (digitsById s)(i := None)\<rparr>) \<and>
   idByTime (snd (Get s j clear)) = idByTime s \<and>
   numStored (snd (Get s j clear)) = numStored s \<and>
   numStored (collect s now) =
     numStored s - of_nat (length (idByTime s) - length (idByTime (collect s now)))"
proof -
  have "length (idByTime s) - length (dropWhile (expired (expiration s) now) (idByTime s))
        = length (takeWhile (expired (expiration s) now) (idByTime s))"
    using length_takeWhile_dropWhile [of "expired (expiration s) now" "idByTime s"] by arith
  then show ?thesis
    by (simp add: Get_def collect_numStored collect_idByTime split: option.splits)
qed

theorem clearing_read_frame_witness:
  "digitsById (fst (Set (NewMemoryStore 3 10) 1 ''a'' ''42'')) ''a'' = Some ''42'' \<and>
   fst (Get (fst (Set (NewMemoryStore 3 10) 1 ''a'' ''42'')) ''a'' True) = ''42'' \<and>
   digitsById (snd (Get (fst (Set (NewMemoryStore 3 10) 1 ''a'' ''42'')) ''a'' True)) ''a'' = None \<and>
   idByTime (snd (Get (fst (Set (NewMemoryStore 3 10) 1 ''a'' ''42'')) ''a'' True))
     = [AnyIdByTimeValue \<lparr>timestamp = 1, id' = ''a''\<rparr>] \<and>
   numStored (snd (Get (fst (Set (NewMemoryStore 3 10) 1 ''a'' ''42'')) ''a'' True)) = 1"
proof -
  have h: "digitsById (fst (Set (NewMemoryStore 3 10) 1 ''a'' ''42'')) ''a'' = Some ''42''"
    by (simp add: Set_def NewMemoryStore_def Let_def)
  have q: "idByTime (fst (Set (NewMemoryStore 3 10) 1 ''a'' ''42''))
             = [AnyIdByTimeValue \<lparr>timestamp = 1, id' = ''a''\<rparr>]"
          "numStored (fst (Set (NewMemoryStore 3 10) 1 ''a'' ''42'')) = 1"
    by (simp_all add: Set_def NewMemoryStore_def Let_def)
  from clearing_read_frame
         [of "fst (Set (NewMemoryStore 3 10) 1 ''a'' ''42'')" "''a''" "''42''" "''a''" True 0] h q
  show ?thesis by simp
qed

subsection \<open>Sweeping\<close>

text \<open>
  C6. A sweep of a store in which no node of the list is expired at the sweep's
  reference time returns the store unchanged: map, list and counter. A second sweep at
  the same reference time changes nothing that the first has left.
\<close>

theorem sweep_nothing_expired:
  "((\<forall>e \<in> set (idByTime s). \<not> expired (expiration s) now e) \<longrightarrow> collect s now = s) \<and>
   collect (collect s now) now = collect s now"
  using collect_none_expired [of s now] collect_twice [of s now] by blast

theorem sweep_nothing_expired_witness:
  "list_all (\<lambda>e. \<not> expired (expiration (fst (Set (NewMemoryStore 3 10) 1 ''a'' ''42''))) 11 e)
     (idByTime (fst (Set (NewMemoryStore 3 10) 1 ''a'' ''42''))) \<and>
   collect (fst (Set (NewMemoryStore 3 10) 1 ''a'' ''42'')) 11
     = fst (Set (NewMemoryStore 3 10) 1 ''a'' ''42'')"
proof -
  have h: "list_all (\<lambda>e. \<not> expired (expiration (fst (Set (NewMemoryStore 3 10) 1 ''a'' ''42''))) 11 e)
             (idByTime (fst (Set (NewMemoryStore 3 10) 1 ''a'' ''42'')))"
    by (simp add: Set_def NewMemoryStore_def Let_def expired_def)
  then have "\<forall>e \<in> set (idByTime (fst (Set (NewMemoryStore 3 10) 1 ''a'' ''42''))).
               \<not> expired (expiration (fst (Set (NewMemoryStore 3 10) 1 ''a'' ''42''))) 11 e"
    by (simp only: list_all_iff)
  with sweep_nothing_expired [of "fst (Set (NewMemoryStore 3 10) 1 ''a'' ''42'')" 11] h
  show ?thesis by blast
qed

lemma swept_eq: "swept s now = takeWhile (expired (expiration s) now) (idByTime s)"
proof -
  let ?P = "expired (expiration s) now"
  have "length (idByTime s) - length (dropWhile ?P (idByTime s))
          = length (takeWhile ?P (idByTime s))"
    using length_takeWhile_dropWhile [of ?P "idByTime s"] by arith
  then show ?thesis
    by (simp add: swept_def collect_idByTime takeWhile_eq_take [symmetric])
qed

lemmas store_eval = run_def Set_def Get_def Let_def NewMemoryStore_def collect_idByTime
  collect_digitsById collect_numStored collect_config expired_def word_sless_alt

text \<open>
  C2, as the code has it. A sweep takes a front stretch of the list. Every node it takes
  is expired at the reference time, and the ids it deletes from the map are exactly the
  ids of the nodes it takes: an id none of whose nodes is taken keeps its entry, and no
  id of a taken node is left in the map.
\<close>

theorem sweep_monotone:
  "idByTime s = swept s now @ idByTime (collect s now) \<and>
   (\<forall>e \<in> set (swept s now). expired (expiration s) now e) \<and>
   (\<forall>j. digitsById (collect s now) j =
          (if j \<in> ids_of (swept s now) then None else digitsById s j))"
  by (auto simp: swept_eq collect_idByTime collect_digitsById dest: set_takeWhileD)

theorem sweep_monotone_witness:
  "swept (run [OpSet 5 ''k'' ''1'', OpSet 90 ''m'' ''2''] (NewMemoryStore 1 50)) 100
     = [AnyIdByTimeValue \<lparr>timestamp = 5, id' = ''k''\<rparr>] \<and>
   list_all (expired 50 100)
     (swept (run [OpSet 5 ''k'' ''1'', OpSet 90 ''m'' ''2''] (NewMemoryStore 1 50)) 100) \<and>
   digitsById (collect (run [OpSet 5 ''k'' ''1'', OpSet 90 ''m'' ''2''] (NewMemoryStore 1 50)) 100)
     ''k'' = None \<and>
   digitsById (collect (run [OpSet 5 ''k'' ''1'', OpSet 90 ''m'' ''2''] (NewMemoryStore 1 50)) 100)
     ''m'' = Some ''2''"
proof -
  let ?s = "run [OpSet 5 ''k'' ''1'', OpSet 90 ''m'' ''2''] (NewMemoryStore 1 50)"
  have sw: "swept ?s 100 = [AnyIdByTimeValue \<lparr>timestamp = 5, id' = ''k''\<rparr>]"
    by (simp add: swept_def store_eval)
  have ix: "digitsById ?s ''m'' = Some ''2''" "expiration ?s = 50"
    by (simp_all add: store_eval)
  from sweep_monotone [of ?s 100] have
    "\<forall>e \<in> set (swept ?s 100). expired (expiration ?s) 100 e"
    "digitsById (collect ?s 100) ''k''
       = (if ''k'' \<in> ids_of (swept ?s 100) then None else digitsById ?s ''k'')"
    "digitsById (collect ?s 100) ''m''
       = (if ''m'' \<in> ids_of (swept ?s 100) then None else digitsById ?s ''m'')"
    by blast+
  with sw ix show ?thesis by (simp add: list_all_iff)
qed

text \<open>
  C2 as it is stated fails. With an expiration of 50, \<open>Set\<close> of the id k at time 5 and
  again at time 90; the second call starts a sweep, which reads the clock at 100. The
  most recent \<open>Set\<close> of k is 10 old, less than the expiration, and the sweep removes k
  from the map with the node of the first call.
\<close>

theorem sweep_removes_young_counterexample:
  "last_set ''k'' [OpSet 5 ''k'' ''1'', OpSet 90 ''k'' ''2''] = Some 90 \<and>
   (100 :: int) - 90
     < expiration (run [OpSet 5 ''k'' ''1'', OpSet 90 ''k'' ''2''] (NewMemoryStore 1 50)) \<and>
   snd (Set (run [OpSet 5 ''k'' ''1''] (NewMemoryStore 1 50)) 90 ''k'' ''2'') \<and>
   digitsById (run [OpSet 5 ''k'' ''1'', OpSet 90 ''k'' ''2''] (NewMemoryStore 1 50)) ''k''
     = Some ''2'' \<and>
   digitsById (collect (run [OpSet 5 ''k'' ''1'', OpSet 90 ''k'' ''2''] (NewMemoryStore 1 50)) 100)
     ''k'' = None"
  by (simp add: store_eval)

subsection \<open>The shape of the nodes and the counter\<close>

lemma exec_shape:
  "\<forall>e \<in> set (idByTime s). assert_idByTimeValue e \<noteq> None \<Longrightarrow>
   \<forall>e \<in> set (idByTime (exec s x)). assert_idByTimeValue e \<noteq> None"
  by (cases x) (auto simp: Set_def Get_def Let_def collect_idByTime split: option.splits
                     dest: set_dropWhileD)

lemma run_shape:
  "\<forall>e \<in> set (idByTime s). assert_idByTimeValue e \<noteq> None \<Longrightarrow>
   \<forall>e \<in> set (idByTime (run ops s)). assert_idByTimeValue e \<noteq> None"
proof (induction ops arbitrary: s)
  case Nil
  then show ?case by (simp add: run_Nil)
next
  case (Cons x ops)
  from Cons.IH [OF exec_shape [OF Cons.prems]] show ?case by (simp add: run_Cons)
qed

text \<open>
  C8. After any operations from \<open>NewMemoryStore\<close>, the type assertion of
  \<open>collectOne\<close> succeeds on every node of the list: the branch that leaves the sweep
  on a node of another type is never taken.
\<close>

theorem queue_shape:
  "\<forall>e \<in> set (idByTime (run ops (NewMemoryStore cn ex))). assert_idByTimeValue e \<noteq> None"
  by (rule run_shape) (simp add: NewMemoryStore_def)

theorem queue_shape_witness:
  "list_all (\<lambda>e. assert_idByTimeValue e \<noteq> None)
     (idByTime (run [OpSet 5 ''k'' ''1'', OpSet 90 ''m'' ''2'', OpGet ''m'' True, OpCollect 100]
                    (NewMemoryStore 1 50))) \<and>
   idByTime (run [OpSet 5 ''k'' ''1'', OpSet 90 ''m'' ''2'', OpGet ''m'' True, OpCollect 100]
                 (NewMemoryStore 1 50)) \<noteq> []"
proof -
  have "idByTime (run [OpSet 5 ''k'' ''1'', OpSet 90 ''m'' ''2'', OpGet ''m'' True, OpCollect 100]
                 (NewMemoryStore 1 50)) \<noteq> []"
    by (simp add: store_eval)
  with queue_shape
         [of "[OpSet 5 ''k'' ''1'', OpSet 90 ''m'' ''2'', OpGet ''m'' True, OpCollect 100]" 1 50]
  show ?thesis by (simp only: list_all_iff) blast
qed

lemma exec_count:
  assumes "numStored s = of_nat (length (idByTime s))"
  shows "numStored (exec s x) = of_nat (length (idByTime (exec s x)))"
proof (cases x)
  case (OpSet now i v)
  with assms show ?thesis by (simp add: Set_def Let_def)
next
  case (OpGet i clear)
  with assms show ?thesis by (simp add: Get_def split: option.splits)
next
  case (OpCollect now)
  let ?P = "expired (expiration s) now"
  have "(of_nat (length (idByTime s)) :: 64 word)
          = of_nat (length (takeWhile ?P (idByTime s)))
            + of_nat (length (dropWhile ?P (idByTime s)))"
    using length_takeWhile_dropWhile [of ?P "idByTime s"] by (metis of_nat_add)
  with assms OpCollect show ?thesis
    by (simp add: collect_numStored collect_idByTime)
qed

lemma run_count:
  "numStored s = of_nat (length (idByTime s)) \<Longrightarrow>
   numStored (run ops s) = of_nat (length (idByTime (run ops s)))"
proof (induction ops arbitrary: s)
  case Nil
  then show ?case by (simp add: run_Nil)
next
  case (Cons x ops)
  from Cons.IH [OF exec_count [OF Cons.prems]] show ?case by (simp add: run_Cons)
qed

lemma sint_of_nat_small:
  assumes "n < 2 ^ 63"
  shows "sint (of_nat n :: 64 word) = int n"
proof -
  have "sint (of_nat n :: 64 word) = signed_take_bit 63 (int n)"
    using signed_of_nat [where 'b = 64 and n = n and 'a = int] by simp
  moreover from assms have "int n < 2 ^ 63"
    by (metis of_nat_less_iff of_nat_numeral of_nat_power)
  then have "signed_take_bit 63 (int n) = int n"
    by (intro signed_take_bit_int_eq_self) simp_all
  ultimately show ?thesis by simp
qed

text \<open>
  C9. After any operations from \<open>NewMemoryStore\<close>, \<open>numStored\<close> is the length of the
  list, as a 64-bit integer; read as a signed integer it is that length, which is below
  \<open>2 ^ 63\<close> for any list a machine holds.
\<close>

theorem numStored_is_queue_length:
  "numStored (run ops (NewMemoryStore cn ex))
     = of_nat (length (idByTime (run ops (NewMemoryStore cn ex)))) \<and>
   (length (idByTime (run ops (NewMemoryStore cn ex))) < 2 ^ 63 \<longrightarrow>
      sint (numStored (run ops (NewMemoryStore cn ex)))
        = int (length (idByTime (run ops (NewMemoryStore cn ex)))))"
proof -
  have "numStored (run ops (NewMemoryStore cn ex))
          = of_nat (length (idByTime (run ops (NewMemoryStore cn ex))))"
    by (rule run_count) (simp add: NewMemoryStore_def)
  then show ?thesis by (simp add: sint_of_nat_small)
qed

theorem numStored_is_queue_length_witness:
  "length (idByTime (run [OpSet 5 ''k'' ''1'', OpSet 90 ''m'' ''2'', OpGet ''m'' True, OpCollect 100]
                         (NewMemoryStore 1 50))) < 2 ^ 63 \<and>
   sint (numStored (run [OpSet 5 ''k'' ''1'', OpSet 90 ''m'' ''2'', OpGet ''m'' True, OpCollect 100]
                        (NewMemoryStore 1 50)))
     = int (length (idByTime
              (run [OpSet 5 ''k'' ''1'', OpSet 90 ''m'' ''2'', OpGet ''m'' True, OpCollect 100]
                   (NewMemoryStore 1 50)))) \<and>
   length (idByTime (run [OpSet 5 ''k'' ''1'', OpSet 90 ''m'' ''2'', OpGet ''m'' True, OpCollect 100]
                         (NewMemoryStore 1 50))) = 1"
proof -
  have l: "length (idByTime
             (run [OpSet 5 ''k'' ''1'', OpSet 90 ''m'' ''2'', OpGet ''m'' True, OpCollect 100]
                  (NewMemoryStore 1 50))) = 1"
    by (simp add: store_eval)
  then have "length (idByTime
               (run [OpSet 5 ''k'' ''1'', OpSet 90 ''m'' ''2'', OpGet ''m'' True, OpCollect 100]
                    (NewMemoryStore 1 50))) < 2 ^ 63"
    by simp
  with numStored_is_queue_length
         [of "[OpSet 5 ''k'' ''1'', OpSet 90 ''m'' ''2'', OpGet ''m'' True, OpCollect 100]" 1 50] l
  show ?thesis by blast
qed

subsection \<open>Expiry under a clock that does not run backwards\<close>

lemma ids_of_append: "ids_of (xs @ ys) = ids_of xs \<union> ids_of ys"
  by (induction xs) (auto split: option.splits)

lemma ids_of_iff:
  "i \<in> ids_of es \<longleftrightarrow> (\<exists>e \<in> set es. \<exists>ev. assert_idByTimeValue e = Some ev \<and> id' ev = i)"
  by (induction es) (auto split: option.splits)

lemma ids_of_take_drop:
  "ids_of es = ids_of (takeWhile P es) \<union> ids_of (dropWhile P es)"
  using ids_of_append [of "takeWhile P es" "dropWhile P es"] by simp

lemma expired_stamp:
  "assert_idByTimeValue e \<noteq> None \<Longrightarrow> expired ex now e \<longleftrightarrow> stamp e + ex < now"
  by (auto simp: expired_def stamp_def split: option.splits)

text \<open>In a list in the order of its timestamps, the sweep leaves no expired node.\<close>

lemma sorted_dropWhile_fresh:
  "sorted (map stamp q) \<Longrightarrow> \<forall>e \<in> set q. assert_idByTimeValue e \<noteq> None \<Longrightarrow>
   e \<in> set (dropWhile (expired ex now) q) \<Longrightarrow> \<not> expired ex now e"
proof (induction q)
  case Nil
  then show ?case by simp
next
  case (Cons x xs)
  show ?case
  proof (cases "expired ex now x")
    case True
    with Cons show ?thesis by simp
  next
    case False
    with Cons.prems have "e = x \<or> e \<in> set xs" by simp
    then show ?thesis
    proof
      assume "e = x" with False show ?thesis by simp
    next
      assume e: "e \<in> set xs"
      with Cons.prems(1) have "stamp x \<le> stamp e" by auto
      moreover from False Cons.prems(2) have "\<not> stamp x + ex < now"
        by (simp add: expired_stamp)
      moreover from e Cons.prems(2) have "assert_idByTimeValue e \<noteq> None" by simp
      ultimately show ?thesis by (simp add: expired_stamp)
    qed
  qed
qed

lemma sorted_map_dropWhile: "sorted (map f xs) \<Longrightarrow> sorted (map f (dropWhile P xs))"
  by (induction xs) auto

lemma queue_ok_New: "queue_ok t (NewMemoryStore cn ex)"
  by (simp add: queue_ok_def NewMemoryStore_def)

lemma queue_ok_Set: "queue_ok t s \<Longrightarrow> t \<le> now \<Longrightarrow> queue_ok now (fst (Set s now i v))"
  by (fastforce simp: queue_ok_def Set_def Let_def sorted_append stamp_def)

lemma queue_ok_Get: "queue_ok t s \<Longrightarrow> queue_ok t (snd (Get s i clear))"
  by (simp add: queue_ok_def Get_def split: option.splits)

lemma queue_ok_collect: "queue_ok t s \<Longrightarrow> queue_ok t (collect s now)"
  by (auto simp: queue_ok_def collect_idByTime sorted_map_dropWhile dest: set_dropWhileD)

lemma run_queue_ok:
  "clocked t ops \<Longrightarrow> queue_ok t s \<Longrightarrow> queue_ok (clock_after t ops) (run ops s)"
proof (induction t ops arbitrary: s rule: clocked.induct)
  case (1 t)
  then show ?case by (simp add: run_Nil)
next
  case (2 t now i v ops)
  then show ?case by (simp add: run_Cons queue_ok_Set)
next
  case (3 t i clear ops)
  then show ?case by (simp add: run_Cons queue_ok_Get)
next
  case (4 t now ops)
  then show ?case by (simp add: run_Cons queue_ok_collect)
qed

lemma clocked_append:
  "clocked t (xs @ ys) \<longleftrightarrow> clocked t xs \<and> clocked (clock_after t xs) ys"
  by (induction t xs rule: clocked.induct) simp_all

lemma indexed_New: "indexed (NewMemoryStore cn ex)"
  by (simp add: indexed_def NewMemoryStore_def)

lemma indexed_exec:
  assumes "indexed s"
  shows "indexed (exec s x)"
proof (cases x)
  case (OpSet now i v)
  with assms show ?thesis
    by (auto simp: indexed_def Set_def Let_def ids_of_append)
next
  case (OpGet i clear)
  with assms show ?thesis
    by (auto simp: indexed_def Get_def split: option.splits)
next
  case (OpCollect now)
  let ?P = "expired (expiration s) now"
  show ?thesis
    unfolding indexed_def
  proof (intro allI impI)
    fix i assume "digitsById (exec s x) i \<noteq> None"
    with OpCollect have "i \<notin> ids_of (takeWhile ?P (idByTime s))"
      and "digitsById s i \<noteq> None"
      by (auto simp: collect_digitsById split: if_splits)
    with assms ids_of_take_drop [of "idByTime s" ?P]
    have "i \<in> ids_of (dropWhile ?P (idByTime s))"
      by (auto simp: indexed_def)
    with OpCollect show "i \<in> ids_of (idByTime (exec s x))"
      by (simp add: collect_idByTime)
  qed
qed

lemma indexed_run: "indexed s \<Longrightarrow> indexed (run ops s)"
  by (induction ops arbitrary: s) (simp_all add: run_Nil run_Cons indexed_exec)

lemma set_by_exec: "set_by i t s \<Longrightarrow> \<not> sets_id i x \<Longrightarrow> set_by i t (exec s x)"
  by (cases x)
     (auto simp: set_by_def Set_def Let_def Get_def collect_idByTime split: option.splits
           dest!: set_dropWhileD)

lemma set_by_run:
  "set_by i t s \<Longrightarrow> list_all (\<lambda>x. \<not> sets_id i x) ops \<Longrightarrow> set_by i t (run ops s)"
  by (induction ops arbitrary: s) (simp_all add: run_Nil run_Cons set_by_exec)

text \<open>After a sweep of a store whose list is in order, an id all of whose nodes are
  expired at the reference time is not in the map.\<close>

lemma collect_expired_gone:
  assumes ok: "queue_ok t s" and ix: "indexed s" and old: "set_by i t1 s"
    and late: "t1 + expiration s < now"
  shows "digitsById (collect s now) i = None"
proof (rule ccontr)
  let ?P = "expired (expiration s) now"
  assume "digitsById (collect s now) i \<noteq> None"
  then have "i \<notin> ids_of (takeWhile ?P (idByTime s))" and "digitsById s i \<noteq> None"
    by (auto simp: collect_digitsById split: if_splits)
  with ix ids_of_take_drop [of "idByTime s" ?P]
  have "i \<in> ids_of (dropWhile ?P (idByTime s))"
    by (auto simp: indexed_def)
  then obtain e ev where e: "e \<in> set (dropWhile ?P (idByTime s))"
    and ev: "assert_idByTimeValue e = Some ev" "id' ev = i"
    by (auto simp: ids_of_iff)
  from e have "e \<in> set (idByTime s)" by (rule set_dropWhileD)
  with old ev have "timestamp ev \<le> t1" by (auto simp: set_by_def)
  with late ev have "?P e" by (simp add: expired_def)
  moreover have "\<not> ?P e"
  proof (rule sorted_dropWhile_fresh [OF _ _ e])
    from ok show "sorted (map stamp (idByTime s))" by (simp add: queue_ok_def)
    from ok show "\<forall>e \<in> set (idByTime s). assert_idByTimeValue e \<noteq> None"
      by (simp add: queue_ok_def)
  qed
  ultimately show False by simp
qed

text \<open>An entry stays while its id is neither stored again nor read away and no sweep
  finds a node of it expired.\<close>

lemma kept_exec:
  assumes "digitsById s i = Some v" and "set_from i t1 s"
    and "\<not> sets_id i x" and "\<not> clears_id i x" and "sweeps_upto (t1 + expiration s) [x]"
  shows "digitsById (exec s x) i = Some v \<and> set_from i t1 (exec s x)"
proof (cases x)
  case (OpSet now j w)
  with assms show ?thesis
    by (auto simp: Set_def Let_def set_from_def)
next
  case (OpGet j clear)
  with assms show ?thesis
    by (auto simp: Get_def set_from_def split: option.splits)
next
  case (OpCollect now)
  let ?P = "expired (expiration s) now"
  from OpCollect assms(5) have now: "now \<le> t1 + expiration s" by simp
  have "i \<notin> ids_of (takeWhile ?P (idByTime s))"
  proof
    assume "i \<in> ids_of (takeWhile ?P (idByTime s))"
    then obtain e ev where e: "e \<in> set (takeWhile ?P (idByTime s))"
      and ev: "assert_idByTimeValue e = Some ev" "id' ev = i"
      by (auto simp: ids_of_iff)
    from e have "e \<in> set (idByTime s)" and "?P e"
      by (auto dest: set_takeWhileD)
    with assms(2) ev have "t1 \<le> timestamp ev" and "timestamp ev + expiration s < now"
      by (auto simp: set_from_def expired_def)
    with now show False by simp
  qed
  with assms(1) have "digitsById (collect s now) i = Some v"
    by (simp add: collect_digitsById)
  moreover from assms(2) have "set_from i t1 (collect s now)"
    by (auto simp: set_from_def collect_idByTime dest!: set_dropWhileD)
  ultimately show ?thesis using OpCollect by simp
qed

lemma sweeps_upto_Cons: "sweeps_upto t (x # ops) \<longleftrightarrow> sweeps_upto t [x] \<and> sweeps_upto t ops"
  by (cases x) simp_all

lemma sweeps_upto_append: "sweeps_upto t (xs @ ys) \<longleftrightarrow> sweeps_upto t xs \<and> sweeps_upto t ys"
  by (induction t xs rule: sweeps_upto.induct) simp_all

lemma sweeps_upto_mono: "sweeps_upto t ops \<Longrightarrow> t \<le> t' \<Longrightarrow> sweeps_upto t' ops"
  by (induction t ops rule: sweeps_upto.induct) simp_all

lemma kept_run:
  "digitsById s i = Some v \<Longrightarrow> set_from i t1 s \<Longrightarrow>
   list_all (\<lambda>x. \<not> sets_id i x) ops \<Longrightarrow> list_all (\<lambda>x. \<not> clears_id i x) ops \<Longrightarrow>
   sweeps_upto (t1 + expiration s) ops \<Longrightarrow>
   digitsById (run ops s) i = Some v"
proof (induction ops arbitrary: s)
  case Nil
  then show ?case by (simp add: run_Nil)
next
  case (Cons x ops)
  from Cons.prems have x: "\<not> sets_id i x" "\<not> clears_id i x" "sweeps_upto (t1 + expiration s) [x]"
    and ops: "list_all (\<lambda>x. \<not> sets_id i x) ops" "list_all (\<lambda>x. \<not> clears_id i x) ops"
      "sweeps_upto (t1 + expiration (exec s x)) ops"
    using sweeps_upto_Cons [of "t1 + expiration s" x ops] by (simp_all add: exec_expiration)
  from kept_exec [OF Cons.prems(1,2) x]
  have "digitsById (exec s x) i = Some v" "set_from i t1 (exec s x)" by simp_all
  from Cons.IH [OF this ops] show ?case by (simp add: run_Cons)
qed

text \<open>
  C1, as the code has it. The calls of \<open>Set\<close> take timestamps that do not decrease.
  \<open>Set i v\<close> runs at \<open>now1\<close> after the operations \<open>pre\<close>; the operations \<open>post\<close>
  follow, none of them a \<open>Set\<close> of \<open>i\<close>; then a sweep runs with the reference time
  \<open>now2\<close>.
  \<^item> When \<open>now2 - now1\<close> exceeds the expiration, \<open>Get i\<close> after the sweep returns the
    empty string.
  \<^item> When \<open>now2 - now1\<close> is less than the expiration, the list held no node of \<open>i\<close>
    when \<open>Set\<close> ran, no operation of \<open>post\<close> is a clearing read of \<open>i\<close> and no sweep
    of \<open>post\<close> has a reference time after \<open>now2\<close>, \<open>Get i\<close> after the sweep returns
    \<open>v\<close>.
\<close>

theorem sweep_expiry:
  assumes clk: "clocked t0 (pre @ OpSet now1 i v # post)"
    and nos: "list_all (\<lambda>x. \<not> sets_id i x) post"
  shows "(ex < now2 - now1 \<longrightarrow>
            fst (Get (run (pre @ OpSet now1 i v # post @ [OpCollect now2])
                          (NewMemoryStore cn ex)) i clear) = '''') \<and>
         (now2 - now1 < ex \<and> i \<notin> ids_of (idByTime (run pre (NewMemoryStore cn ex))) \<and>
          list_all (\<lambda>x. \<not> clears_id i x) post \<and> sweeps_upto now2 post \<longrightarrow>
            fst (Get (run (pre @ OpSet now1 i v # post @ [OpCollect now2])
                          (NewMemoryStore cn ex)) i clear) = v)"
proof -
  let ?s0 = "run pre (NewMemoryStore cn ex)"
  let ?s1 = "fst (Set ?s0 now1 i v)"
  let ?s2 = "run post ?s1"
  let ?end = "run (pre @ OpSet now1 i v # post @ [OpCollect now2]) (NewMemoryStore cn ex)"
  have run: "?end = collect ?s2 now2"
    by (simp add: run_append run_Cons run_Nil)
  have ex1: "expiration ?s1 = ex"
    by (simp add: run_expiration Set_def Let_def NewMemoryStore_def)
  have ex2: "expiration ?s2 = ex"
    by (simp add: run_expiration Set_def Let_def NewMemoryStore_def)
  have gone: "fst (Get ?end i clear) = ''''" if late: "ex < now2 - now1"
  proof -
    from clk have c: "clocked t0 pre" "clock_after t0 pre \<le> now1" "clocked now1 post"
      by (simp_all add: clocked_append)
    from run_queue_ok [OF c(1) queue_ok_New] have "queue_ok (clock_after t0 pre) ?s0" .
    from queue_ok_Set [OF this c(2)] have ok1: "queue_ok now1 ?s1" .
    from run_queue_ok [OF c(3) ok1] have ok2: "queue_ok (clock_after now1 post) ?s2" .
    from ok1 have "set_by i now1 ?s1"
      by (auto simp: queue_ok_def set_by_def stamp_def)
    from set_by_run [OF this nos] have old: "set_by i now1 ?s2" .
    have "indexed ?s1"
      using indexed_exec [OF indexed_run [OF indexed_New], of pre cn ex "OpSet now1 i v"]
      by simp
    then have ix: "indexed ?s2" by (rule indexed_run)
    from late ex2 have "now1 + expiration ?s2 < now2" by simp
    from collect_expired_gone [OF ok2 ix old this] show ?thesis
      by (simp add: run Get_absent)
  qed
  have kept: "fst (Get ?end i clear) = v"
    if young: "now2 - now1 < ex"
      and new: "i \<notin> ids_of (idByTime ?s0)"
      and noc: "list_all (\<lambda>x. \<not> clears_id i x) post"
      and upto: "sweeps_upto now2 post"
  proof -
    have v1: "digitsById ?s1 i = Some v"
      by (simp add: Set_def Let_def)
    from new have "set_from i now1 ?s1"
      by (auto simp: set_from_def Set_def Let_def ids_of_iff)
    moreover from young upto ex1
    have "sweeps_upto (now1 + expiration ?s1) (post @ [OpCollect now2])"
      by (auto simp: sweeps_upto_append intro: sweeps_upto_mono)
    moreover from nos have "list_all (\<lambda>x. \<not> sets_id i x) (post @ [OpCollect now2])" by simp
    moreover from noc have "list_all (\<lambda>x. \<not> clears_id i x) (post @ [OpCollect now2])" by simp
    ultimately have "digitsById (run (post @ [OpCollect now2]) ?s1) i = Some v"
      using kept_run [OF v1] by blast
    then have "digitsById (collect ?s2 now2) i = Some v"
      by (simp add: run_append run_Cons run_Nil)
    then show ?thesis
      by (simp add: run Get_def)
  qed
  from gone kept show ?thesis by blast
qed

theorem sweep_expiry_witness:
  "clocked 0 ([OpSet 0 ''b'' ''1''] @ OpSet 100 ''a'' ''y'' #
                [OpGet ''a'' False, OpSet 110 ''c'' ''3'']) \<and>
   list_all (\<lambda>x. \<not> sets_id ''a'' x) [OpGet ''a'' False, OpSet 110 ''c'' ''3''] \<and>
   (50 :: int) < 160 - 100 \<and>
   fst (Get (run ([OpSet 0 ''b'' ''1''] @ OpSet 100 ''a'' ''y'' #
                    [OpGet ''a'' False, OpSet 110 ''c'' ''3''] @ [OpCollect 160])
                 (NewMemoryStore 2 50)) ''a'' False) = '''' \<and>
   (120 :: int) - 100 < 50 \<and>
   ''a'' \<notin> ids_of (idByTime (run [OpSet 0 ''b'' ''1''] (NewMemoryStore 2 50))) \<and>
   list_all (\<lambda>x. \<not> clears_id ''a'' x) [OpGet ''a'' False, OpSet 110 ''c'' ''3''] \<and>
   sweeps_upto 120 [OpGet ''a'' False, OpSet 110 ''c'' ''3''] \<and>
   fst (Get (run ([OpSet 0 ''b'' ''1''] @ OpSet 100 ''a'' ''y'' #
                    [OpGet ''a'' False, OpSet 110 ''c'' ''3''] @ [OpCollect 120])
                 (NewMemoryStore 2 50)) ''a'' False) = ''y''"
proof -
  have c: "clocked 0 ([OpSet 0 ''b'' ''1''] @ OpSet 100 ''a'' ''y'' #
                        [OpGet ''a'' False, OpSet 110 ''c'' ''3''])"
    by simp
  have n: "list_all (\<lambda>x. \<not> sets_id ''a'' x) [OpGet ''a'' False, OpSet 110 ''c'' ''3'']"
    by simp
  have h: "(50 :: int) < 160 - 100" "(120 :: int) - 100 < 50"
    "''a'' \<notin> ids_of (idByTime (run [OpSet 0 ''b'' ''1''] (NewMemoryStore 2 50)))"
    "list_all (\<lambda>x. \<not> clears_id ''a'' x) [OpGet ''a'' False, OpSet 110 ''c'' ''3'']"
    "sweeps_upto 120 [OpGet ''a'' False, OpSet 110 ''c'' ''3'']"
    by (simp_all add: store_eval)
  from sweep_expiry [OF c n, of 50 160 2 False] sweep_expiry [OF c n, of 50 120 2 False] c n h
  show ?thesis by blast
qed

text \<open>
  C1 as it is stated fails in its second half. With an expiration of 50, \<open>Set\<close> of the
  id a at time 0 and again, with the value y, at time 100; the second call starts a
  sweep, which reads the clock at 120. The sweep runs 20 after the second \<open>Set\<close>, less
  than the expiration, and \<open>Get\<close> afterwards returns the empty string, not y.
\<close>

theorem sweep_expiry_overwritten_counterexample:
  "clocked 0 [OpSet 0 ''a'' ''x'', OpSet 100 ''a'' ''y''] \<and>
   snd (Set (run [OpSet 0 ''a'' ''x''] (NewMemoryStore 1 50)) 100 ''a'' ''y'') \<and>
   (120 :: int) - 100 < 50 \<and>
   fst (Get (run [OpSet 0 ''a'' ''x'', OpSet 100 ''a'' ''y'', OpCollect 120] (NewMemoryStore 1 50))
          ''a'' False) = '''' \<and>
   ''y'' \<noteq> ''''"
  by (simp add: store_eval)

end
